theory Spec2Isabelle
  imports Main "HOL-Library.Sublist"
begin

section \<open>Data model\<close>

text \<open>
  The interfaces of \<^verbatim>\<open>src/index.ts\<close>. A JavaScript \<^verbatim>\<open>number\<close> that holds a
  canonical id or an issue number is an integer; it is modelled as \<^typ>\<open>int\<close>, and
  \<^verbatim>\<open>number | null\<close> as \<^typ>\<open>int option\<close> with \<^term>\<open>None\<close> for \<^verbatim>\<open>null\<close>.
  The value \<^verbatim>\<open>NaN\<close> only arises as a result of \<^verbatim>\<open>parseInt\<close> and is modelled
  there.
\<close>

record IssueMetadata =
  canonicalId :: "int option"

definition newMetadata :: IssueMetadata where
  "newMetadata = \<lparr>canonicalId = None\<rparr>"

record IssueBody =
  sections :: "string list"
  metadata :: IssueMetadata

record Issue =
  owner :: string
  repo :: string
  issueId :: int
  body :: IssueBody

record 'g IssueContext =
  github :: 'g
  issue :: Issue

section \<open>The allocator: \<^verbatim>\<open>findGaps\<close>\<close>

text \<open>
  \<^verbatim>\<open>while (array.length !== 0 && array[0] < 1) { array.shift(); }\<close>
  removes elements from the front of the array object that the caller passed.
\<close>

fun shift_leading :: "int list \<Rightarrow> int list" where
  "shift_leading [] = []"
| "shift_leading (x # xs) = (if x < 1 then shift_leading xs else x # xs)"

text \<open>
  The \<^verbatim>\<open>for\<close> loop of \<^verbatim>\<open>findGaps\<close>, one call per test of the loop condition.
  On an empty array \<^verbatim>\<open>array[array.length - 1]\<close> is \<^verbatim>\<open>undefined\<close> and the
  comparison \<^verbatim>\<open>i < undefined\<close> is false; an index at or beyond the length reads
  \<^verbatim>\<open>undefined\<close>, which equals no \<^verbatim>\<open>i\<close>. The test
  \<^verbatim>\<open>gaps.length == maxGaps\<close> comes after the push, inside the body.
\<close>

function gaps_loop :: "int list \<Rightarrow> nat \<Rightarrow> int \<Rightarrow> nat \<Rightarrow> int list \<Rightarrow> int list" where
  "gaps_loop array maxGaps i arrayIndex gaps =
     (if array \<noteq> [] \<and> i < last array then
        (let arrayIndex' =
               (if arrayIndex < length array \<and> i = array ! arrayIndex
                then arrayIndex + 1 else arrayIndex);
             gaps' =
               (if arrayIndex < length array \<and> i = array ! arrayIndex
                then gaps else gaps @ [i])
         in if length gaps' = maxGaps then gaps'
            else gaps_loop array maxGaps (i + 1) arrayIndex' gaps')
      else gaps)"
  by pat_completeness auto
termination
  by (relation "measure (\<lambda>(array, maxGaps, i, arrayIndex, gaps). nat (last array - i))") auto

declare gaps_loop.simps [simp del]

text \<open>
  \<^verbatim>\<open>findGaps\<close> with its effect on the argument made explicit: the first component
  is the caller's array after the call, the second the returned list of gaps.
\<close>

definition findGaps_st :: "int list \<Rightarrow> nat \<Rightarrow> int list \<times> int list" where
  "findGaps_st array maxGaps =
     (let array' = shift_leading array
      in (array', gaps_loop array' maxGaps 1 0 []))"

definition findGaps :: "int list \<Rightarrow> nat \<Rightarrow> int list" where
  "findGaps array maxGaps = snd (findGaps_st array maxGaps)"

section \<open>Numbers as the program reads and writes them\<close>

text \<open>
  The test \<^verbatim>\<open>if (canonicalId)\<close> on a \<^verbatim>\<open>number | null\<close>: \<^verbatim>\<open>null\<close> and
  \<^verbatim>\<open>0\<close> are falsy. The expression \<^verbatim>\<open>canonicalId || 0\<close> replaces a falsy value
  by \<^verbatim>\<open>0\<close>.
\<close>

definition truthy :: "int option \<Rightarrow> bool" where
  "truthy v = (case v of None \<Rightarrow> False | Some n \<Rightarrow> n \<noteq> 0)"

definition or_zero :: "int option \<Rightarrow> int" where
  "or_zero v = (case v of None \<Rightarrow> 0 | Some n \<Rightarrow> n)"

text \<open>
  \<^verbatim>\<open>Number.prototype.toString\<close> on an integer: its decimal digits, after a minus
  sign when it is negative. A JavaScript number holds every integer of magnitude below
  \<open>2\<^sup>5\<^sup>3\<close> exactly and writes it digit for digit; beyond that it rounds, and from
  \<open>10\<^sup>2\<^sup>1\<close> on it writes exponent notation. The theorems that depend on the digits
  of a number are stated for numbers below \<open>2\<^sup>5\<^sup>3\<close>.
\<close>

definition digit_char :: "nat \<Rightarrow> char" where
  "digit_char d = ''0123456789'' ! d"

fun digits :: "nat \<Rightarrow> string" where
  "digits n = (if n < 10 then [digit_char n] else digits (n div 10) @ [digit_char (n mod 10)])"

declare digits.simps [simp del]

definition number_toString :: "int \<Rightarrow> string" where
  "number_toString n = (if n < 0 then CHR ''-'' # digits (nat (- n)) else digits (nat n))"

text \<open>
  \<^verbatim>\<open>Array.prototype.sort()\<close> without a comparison function: the elements are
  converted to strings and ordered by their code units. The sort is stable; it is
  written here as an insertion sort.
\<close>

fun string_less :: "string \<Rightarrow> string \<Rightarrow> bool" where
  "string_less [] [] = False"
| "string_less [] (y # ys) = True"
| "string_less (x # xs) [] = False"
| "string_less (x # xs) (y # ys) =
     ((of_char x :: nat) < of_char y \<or> (x = y \<and> string_less xs ys))"

fun sort_insert :: "int \<Rightarrow> int list \<Rightarrow> int list" where
  "sort_insert x [] = [x]"
| "sort_insert x (y # ys) =
     (if string_less (number_toString y) (number_toString x) then y # sort_insert x ys
      else x # y # ys)"

fun sort_js :: "int list \<Rightarrow> int list" where
  "sort_js [] = []"
| "sort_js (x # xs) = sort_insert x (sort_js xs)"

section \<open>Assignment of canonical ids: \<^verbatim>\<open>State.initialise\<close>\<close>

definition context_canonicalId :: "'g IssueContext \<Rightarrow> int option" where
  "context_canonicalId context = canonicalId (metadata (body (issue context)))"

text \<open>The assignment \<^verbatim>\<open>context.issue.body.metadata.canonicalId = nextId\<close>.\<close>

definition set_canonicalId :: "'g IssueContext \<Rightarrow> int \<Rightarrow> 'g IssueContext" where
  "set_canonicalId context n =
     context\<lparr>issue := (issue context)\<lparr>body := (body (issue context))
       \<lparr>metadata := (metadata (body (issue context)))\<lparr>canonicalId := Some n\<rparr>\<rparr>\<rparr>\<rparr>"

text \<open>
  \<^verbatim>\<open>contexts.map(c => c.issue.body.metadata.canonicalId || 0).filter(m => m !== 0).sort()\<close>
\<close>

definition knownIds :: "'g IssueContext list \<Rightarrow> int list" where
  "knownIds contexts =
     sort_js (filter (\<lambda>m. m \<noteq> 0)
       (map (\<lambda>context. or_zero (context_canonicalId context)) contexts))"

text \<open>
  The loop \<^verbatim>\<open>for (let context of contexts)\<close> with its two variables, the array
  \<^verbatim>\<open>gaps\<close> (popped from the end) and the counter \<^verbatim>\<open>nextId\<close>. The result is
  the list of contexts after the loop has written the new ids into them.
\<close>

fun assign_loop :: "int list \<Rightarrow> int \<Rightarrow> 'g IssueContext list \<Rightarrow> 'g IssueContext list" where
  "assign_loop gaps nextId [] = []"
| "assign_loop gaps nextId (context # rest) =
     (if truthy (context_canonicalId context) then context # assign_loop gaps nextId rest
      else if gaps \<noteq> [] then
        set_canonicalId context (last gaps) # assign_loop (butlast gaps) (last gaps) rest
      else set_canonicalId context (nextId + 1) # assign_loop gaps (nextId + 1) rest)"

text \<open>
  \<^verbatim>\<open>initialise\<close> from the point where \<^verbatim>\<open>getIssues\<close> has returned
  \<^verbatim>\<open>contexts\<close>: the early return on an empty list, the known ids, the gaps, and
  the loop with \<^verbatim>\<open>nextId = 0\<close>.
\<close>

definition initialise :: "'g IssueContext list \<Rightarrow> 'g IssueContext list" where
  "initialise contexts =
     (if length contexts = 0 then contexts
      else (let knownIds' = knownIds contexts;
                gaps = findGaps knownIds' (length contexts)
            in assign_loop gaps 0 contexts))"

section \<open>Strings: \<^verbatim>\<open>split\<close>, \<^verbatim>\<open>join\<close>, \<^verbatim>\<open>parseInt\<close>\<close>

text \<open>
  A string is the list of its code units; the model covers code units below 256.
  The two constants of the source, with \<^verbatim>\<open>\r\n\<close> written as the characters 13
  and 10.
\<close>

definition DO_NOT_EDIT :: string where
  "DO_NOT_EDIT = ''<!-- DO NOT EDIT -->'' @ [CHR 0x0D, CHR 0x0A]"

definition SEPARATOR :: string where
  "SEPARATOR = [CHR 0x0D, CHR 0x0A] @ ''---'' @ [CHR 0x0D, CHR 0x0A]"

text \<open>
  \<^verbatim>\<open>String.prototype.split(separator)\<close>: the text is cut at each occurrence of the
  separator, found from left to right, the search resuming after an occurrence.
  \<open>piece\<close> holds the characters read since the last cut. With an empty separator
  JavaScript returns the single characters.
\<close>

fun split_from :: "string \<Rightarrow> string \<Rightarrow> string \<Rightarrow> string list" where
  "split_from separator piece [] = [piece]"
| "split_from separator piece (c # cs) =
     (if separator \<noteq> [] \<and> prefix separator (c # cs)
      then piece # split_from separator [] (drop (length separator) (c # cs))
      else split_from separator (piece @ [c]) cs)"

definition split :: "string \<Rightarrow> string \<Rightarrow> string list" where
  "split separator s =
     (if separator = [] then map (\<lambda>c. [c]) s else split_from separator [] s)"

text \<open>\<^verbatim>\<open>Array.prototype.join(separator)\<close> on an array of strings.\<close>

fun join :: "string \<Rightarrow> string list \<Rightarrow> string" where
  "join separator [] = []"
| "join separator [x] = x"
| "join separator (x # y # ys) = x @ separator @ join separator (y # ys)"

text \<open>
  The result of \<^verbatim>\<open>parseInt\<close> is a number that may be \<^verbatim>\<open>NaN\<close>.
  \<^verbatim>\<open>parseInt(string)\<close> with no radix, as ECMAScript defines it: leading white space
  is skipped, then an optional sign, then an optional \<^verbatim>\<open>0x\<close> or \<^verbatim>\<open>0X\<close> that
  selects radix 16; the longest run of digits of the radix is the value, and an empty
  run gives \<^verbatim>\<open>NaN\<close>. Whatever follows the digits is ignored.
\<close>

datatype number = NaN | Num int

definition isWhiteSpace :: "char \<Rightarrow> bool" where
  "isWhiteSpace c =
     (c \<in> set [CHR 0x09, CHR 0x0A, CHR 0x0B, CHR 0x0C, CHR 0x0D, CHR 0x20, CHR 0xA0])"

definition digit_value :: "char \<Rightarrow> nat option" where
  "digit_value c =
     (let n = (of_char c :: nat)
      in if 48 \<le> n \<and> n \<le> 57 then Some (n - 48)
         else if 97 \<le> n \<and> n \<le> 122 then Some (n - 87)
         else if 65 \<le> n \<and> n \<le> 90 then Some (n - 55)
         else None)"

definition radix_digit :: "nat \<Rightarrow> char \<Rightarrow> bool" where
  "radix_digit R c = (case digit_value c of None \<Rightarrow> False | Some d \<Rightarrow> d < R)"

definition parseInt :: "string \<Rightarrow> number" where
  "parseInt inputString =
     (let S = dropWhile isWhiteSpace inputString;
          sign = (if S \<noteq> [] \<and> hd S = CHR ''-'' then - 1 else 1 :: int);
          S1 = (if S \<noteq> [] \<and> (hd S = CHR ''+'' \<or> hd S = CHR ''-'') then tl S else S);
          hex = (take 2 S1 = ''0x'' \<or> take 2 S1 = ''0X'');
          R = (if hex then 16 else 10 :: nat);
          S2 = (if hex then drop 2 S1 else S1);
          Z = takeWhile (radix_digit R) S2
      in if Z = [] then NaN
         else Num (sign * int (foldl (\<lambda>a c. a * R + the (digit_value c)) 0 Z)))"

text \<open>
  Two predicates on strings that the theorems about \<^verbatim>\<open>parseInt\<close> are stated
  with: a character is a decimal digit; a string has no decimal digit where
  \<^verbatim>\<open>parseInt\<close> starts to read, that is after the leading white space and one
  optional sign.
\<close>

definition decimal_digit :: "char \<Rightarrow> bool" where
  "decimal_digit c = (48 \<le> (of_char c :: nat) \<and> (of_char c :: nat) \<le> 57)"


section \<open>The metadata microformat\<close>

subsection \<open>What the program builds and serialises\<close>

text \<open>
  \<^verbatim>\<open>printMetadata\<close> builds a tree of elements with the library cheerio and
  returns its serialisation. An element has a tag, attributes and children; the
  serialisation writes \<^verbatim>\<open><tag name="value">children</tag>\<close>. The texts and
  attribute values written here (fixed labels and the digits of a number) contain no
  character that a serialiser escapes.
\<close>

datatype node = Element string "(string \<times> string) list" "node list" | Text string

fun html_of :: "node \<Rightarrow> string" where
  "html_of (Text t) = t"
| "html_of (Element tag attribs children) =
     ''<'' @ tag @ concat (map (\<lambda>(name, v). '' '' @ name @ ''=\"'' @ v @ ''\"'') attribs) @ ''>''
     @ concat (map html_of children) @ ''</'' @ tag @ ''>''"

text \<open>\<^verbatim>\<open>$(parent).append(child)\<close> and \<^verbatim>\<open>$(element).html()\<close>.\<close>

fun append_node :: "node \<Rightarrow> node \<Rightarrow> node" where
  "append_node (Element tag attribs children) child = Element tag attribs (children @ [child])"
| "append_node (Text t) child = Text t"

fun inner_html :: "node \<Rightarrow> string" where
  "inner_html (Element tag attribs children) = concat (map html_of children)"
| "inner_html (Text t) = t"

text \<open>
  The local function \<^verbatim>\<open>addField\<close>: a field whose value is \<^verbatim>\<open>null\<close> adds
  nothing to the list \<^verbatim>\<open>details\<close>; otherwise a list item with the attribute
  \<^verbatim>\<open>data-<name>\<close> and the label, passed through \<^verbatim>\<open>f\<close>.
\<close>

definition addField ::
  "node \<Rightarrow> string \<Rightarrow> string option \<Rightarrow> string \<Rightarrow> (node \<Rightarrow> node) \<Rightarrow> node" where
  "addField details name v text f =
     (case v of
        None \<Rightarrow> details
      | Some s \<Rightarrow> append_node details (f (Element ''li'' [(''data-'' @ name, s)] [Text text])))"

text \<open>
  \<^verbatim>\<open>printMetadata\<close>. The only \<^verbatim>\<open>null\<close> result is for the argument
  \<^verbatim>\<open>null\<close>: the guard is \<^verbatim>\<open>if (!metadata)\<close>, and a metadata object is truthy
  whatever its fields hold.
\<close>

definition printMetadata :: "IssueMetadata option \<Rightarrow> string option" where
  "printMetadata m =
     (case m of
        None \<Rightarrow> None
      | Some metadata' \<Rightarrow>
          (let details = Element ''ul'' [] [];
               details = addField details ''canonical-id''
                 (map_option number_toString (canonicalId metadata')) ''Canonical link: ''
                 (\<lambda>li. append_node li (Element ''a'' [] [Text '''']))
           in Some (inner_html
                (append_node (Element ''body'' [] [])
                   (append_node
                      (append_node (Element ''details'' [] [])
                         (Element ''summary'' [] [Text ''Issue metadata'']))
                      details)))))"

subsection \<open>What the program reads\<close>

text \<open>
  \<^verbatim>\<open>parseMetadata\<close> hands the text to cheerio and looks at the elements that
  \<^verbatim>\<open>cheerio.load(html)("details > ul > li")\<close> selects: how many there are, and
  for each one whether its \<^verbatim>\<open>data()\<close> object has the key \<^verbatim>\<open>canonicalId\<close>
  and what \<^verbatim>\<open>parseInt\<close> makes of the value. cheerio's HTML parser is not part of
  the repository, so it is a parameter \<open>select\<close> of the functions that parse: for a
  text, the \<^verbatim>\<open>data()\<close> objects of the selected elements in document order, each
  an association list from key to value. \<^verbatim>\<open>parseInt\<close> converts its argument to a
  string first, so a value is kept as that string.
\<close>

type_synonym selector = "string \<Rightarrow> (string \<times> string) list list"

definition parseMetadata :: "selector \<Rightarrow> string \<Rightarrow> IssueMetadata option" where
  "parseMetadata select html =
     (let details = select html
      in if length details = 0 then None
         else (let parsed = foldl (\<lambda>cur data.
                       (case map_of data ''canonicalId'' of
                          None \<Rightarrow> cur
                        | Some v \<Rightarrow> Some (parseInt v))) None details
               in Some \<lparr>canonicalId =
                    (case parsed of
                       None \<Rightarrow> None
                     | Some NaN \<Rightarrow> None
                     | Some (Num n) \<Rightarrow> if n < 1 then None else Some n)\<rparr>))"

section \<open>The body codec\<close>

text \<open>
  \<^verbatim>\<open>split\<close> with a non-empty separator returns at least one string, so
  \<^verbatim>\<open>sections[sections.length - 1]\<close> exists; \<^verbatim>\<open>last ? ... : null\<close> tests that it
  is not the empty string.
\<close>

definition parseIssueBody :: "selector \<Rightarrow> string \<Rightarrow> IssueBody" where
  "parseIssueBody select bodyText =
     (let sections' = split SEPARATOR bodyText;
          last' = last sections';
          metadata' = (if last' \<noteq> [] then parseMetadata select last' else None)
      in \<lparr>sections = (if metadata' \<noteq> None then butlast sections' else sections'),
          metadata = (case metadata' of Some m \<Rightarrow> m | None \<Rightarrow> newMetadata)\<rparr>)"

text \<open>\<^verbatim>\<open>if (metadataSection)\<close> is false for \<^verbatim>\<open>null\<close> and for the empty string.\<close>

definition printIssueBody :: "IssueBody \<Rightarrow> string" where
  "printIssueBody body' =
     (let sections' = sections body';
          metadataSection = printMetadata (Some (metadata body'));
          sections' = (case metadataSection of
                         None \<Rightarrow> sections'
                       | Some s \<Rightarrow> if s = [] then sections' else sections' @ [DO_NOT_EDIT @ s])
      in join SEPARATOR sections')"

subsection \<open>A reader for the markup that \<^verbatim>\<open>printMetadata\<close> writes\<close>

text \<open>
  To run the parsing functions on a concrete text, \<open>select\<close> needs a value. The
  reader below stands for cheerio on a small part of HTML and refuses every text
  outside that part, so that it answers nothing where it does not follow the library.
  It accepts text, comments \<^verbatim>\<open><!-- ... -->\<close>, and the elements \<^verbatim>\<open>details\<close>,
  \<^verbatim>\<open>summary\<close>, \<^verbatim>\<open>ul\<close>, \<^verbatim>\<open>li\<close> and \<^verbatim>\<open>a\<close>, written in lower case, each
  closed by its own end tag, with attributes that are double-quoted, single-quoted
  or unquoted. It refuses, among others: any other tag, a \<^verbatim>\<open><\<close> that starts no tag,
  an end tag that does not match the open element, an \<^verbatim>\<open>li\<close> inside an open
  \<^verbatim>\<open>li\<close> of the same list and an \<^verbatim>\<open>a\<close> inside an open \<^verbatim>\<open>a\<close> (which HTML
  closes implicitly), character references and carriage returns in attribute values,
  repeated attribute names, and a text that ends inside a tag or an element.

  It keeps the stack of open elements and records the \<^verbatim>\<open>data()\<close> object of every
  \<^verbatim>\<open>li\<close> whose parent is a \<^verbatim>\<open>ul\<close> whose parent is a \<^verbatim>\<open>details\<close>.
  cheerio's \<^verbatim>\<open>data()\<close> names an attribute \<^verbatim>\<open>data-canonical-id\<close> by the key
  \<^verbatim>\<open>canonicalId\<close> and decodes its text: \<^verbatim>\<open>null\<close>, \<^verbatim>\<open>true\<close>, \<^verbatim>\<open>false\<close>
  and a text that is the string of a number become that value, whose string is the
  text again; a text in braces or brackets is given to \<^verbatim>\<open>JSON.parse\<close>, and the
  string of the result is in general another text (the attribute \<^verbatim>\<open>[12]\<close> becomes
  an array whose string is \<^verbatim>\<open>12\<close>). The reader refuses a data attribute in braces
  or brackets; for every other it keeps the attribute text, which is then the string
  of the data value.
\<close>

datatype mode =
    InText
  | TagOpen
  | Bang
  | BangDash
  | InComment nat
  | CloseName string
  | OpenName string
  | Attribs string "(string \<times> string) list"
  | AttribName string "(string \<times> string) list" string
  | BeforeValue string "(string \<times> string) list" string
  | Quoted char string "(string \<times> string) list" string string
  | Unquoted string "(string \<times> string) list" string string
  | Refused

record reader =
  mode :: mode
  stack :: "string list"
  found :: "(string \<times> string) list list"

definition lower_letter :: "char \<Rightarrow> bool" where
  "lower_letter c = (97 \<le> (of_char c :: nat) \<and> (of_char c :: nat) \<le> 122)"

definition name_char :: "char \<Rightarrow> bool" where
  "name_char c = (lower_letter c \<or> decimal_digit c \<or> c \<in> set ''-_.'')"

definition unquoted_char :: "char \<Rightarrow> bool" where
  "unquoted_char c =
     (c \<notin> set [CHR 0x09, CHR 0x0A, CHR 0x0C, CHR 0x0D, CHR 0x20, CHR 0x22, CHR 0x27,
                CHR ''<'', CHR ''='', CHR ''>'', CHR 0x60, CHR ''&''])"

text \<open>
  The key of a data attribute: cheerio replaces each \<^verbatim>\<open>-\<close>, \<^verbatim>\<open>_\<close> or \<^verbatim>\<open>.\<close>
  that is followed by a letter, a digit or \<^verbatim>\<open>_\<close> by that character in upper case,
  and drops one at the end.
\<close>

definition upper :: "char \<Rightarrow> char" where
  "upper c = (if lower_letter c then char_of ((of_char c :: nat) - 32) else c)"

fun camelCase :: "string \<Rightarrow> string" where
  "camelCase [] = []"
| "camelCase [a] = (if a \<in> set ''-_.'' then [] else [a])"
| "camelCase (a # b # cs) =
     (if a \<in> set ''-_.'' \<and> (lower_letter b \<or> decimal_digit b \<or> b = CHR ''_'')
      then upper b # camelCase cs else a # camelCase (b # cs))"

definition data_of :: "(string \<times> string) list \<Rightarrow> (string \<times> string) list" where
  "data_of attribs =
     map (\<lambda>(name, v). (camelCase (drop 5 name), v))
       (filter (\<lambda>(name, v). take 5 name = ''data-'') attribs)"

definition json_like :: "string \<Rightarrow> bool" where
  "json_like v =
     (v \<noteq> [] \<and> ((hd v = CHR ''{'' \<and> last v = CHR ''}'') \<or> (hd v = CHR ''['' \<and> last v = CHR '']'')))"

definition open_tag :: "reader \<Rightarrow> string \<Rightarrow> (string \<times> string) list \<Rightarrow> reader" where
  "open_tag r tag attribs =
     (if tag \<notin> set [''details'', ''summary'', ''ul'', ''li'', ''a'']
         \<or> \<not> distinct (map fst attribs)
         \<or> \<not> distinct (map fst (data_of attribs))
         \<or> list_ex (\<lambda>(k, v). json_like v) (data_of attribs)
         \<or> (tag = ''li'' \<and> ''li'' \<in> set (takeWhile (\<lambda>t. t \<noteq> ''ul'') (stack r)))
         \<or> (tag = ''a'' \<and> ''a'' \<in> set (stack r))
      then r\<lparr>mode := Refused\<rparr>
      else r\<lparr>mode := InText,
             stack := tag # stack r,
             found := (if tag = ''li'' \<and> take 2 (stack r) = [''ul'', ''details'']
                       then found r @ [data_of attribs] else found r)\<rparr>)"

definition close_tag :: "reader \<Rightarrow> string \<Rightarrow> reader" where
  "close_tag r tag =
     (if stack r \<noteq> [] \<and> hd (stack r) = tag
      then r\<lparr>mode := InText, stack := tl (stack r)\<rparr>
      else r\<lparr>mode := Refused\<rparr>)"

fun read_char :: "reader \<Rightarrow> char \<Rightarrow> reader" where
  "read_char r c =
     (case mode r of
        InText \<Rightarrow> (if c = CHR ''<'' then r\<lparr>mode := TagOpen\<rparr> else r)
      | TagOpen \<Rightarrow>
          (if c = CHR ''/'' then r\<lparr>mode := CloseName []\<rparr>
           else if c = CHR ''!'' then r\<lparr>mode := Bang\<rparr>
           else if lower_letter c then r\<lparr>mode := OpenName [c]\<rparr>
           else r\<lparr>mode := Refused\<rparr>)
      | Bang \<Rightarrow> (if c = CHR ''-'' then r\<lparr>mode := BangDash\<rparr> else r\<lparr>mode := Refused\<rparr>)
      | BangDash \<Rightarrow>
          (if c = CHR ''-'' then r\<lparr>mode := InComment 2\<rparr> else r\<lparr>mode := Refused\<rparr>)
      | InComment dashes \<Rightarrow>
          (if c = CHR ''-'' then r\<lparr>mode := InComment (Suc dashes)\<rparr>
           else if c = CHR ''>'' \<and> 2 \<le> dashes then r\<lparr>mode := InText\<rparr>
           else if c = CHR ''!'' \<and> 2 \<le> dashes then r\<lparr>mode := Refused\<rparr>
           else r\<lparr>mode := InComment 0\<rparr>)
      | CloseName tag \<Rightarrow>
          (if c = CHR ''>'' then close_tag r tag
           else if lower_letter c then r\<lparr>mode := CloseName (tag @ [c])\<rparr>
           else r\<lparr>mode := Refused\<rparr>)
      | OpenName tag \<Rightarrow>
          (if c = CHR ''>'' then open_tag r tag []
           else if c = CHR '' '' then r\<lparr>mode := Attribs tag []\<rparr>
           else if lower_letter c then r\<lparr>mode := OpenName (tag @ [c])\<rparr>
           else r\<lparr>mode := Refused\<rparr>)
      | Attribs tag attribs \<Rightarrow>
          (if c = CHR ''>'' then open_tag r tag attribs
           else if c = CHR '' '' then r
           else if name_char c then r\<lparr>mode := AttribName tag attribs [c]\<rparr>
           else r\<lparr>mode := Refused\<rparr>)
      | AttribName tag attribs name \<Rightarrow>
          (if c = CHR ''='' then r\<lparr>mode := BeforeValue tag attribs name\<rparr>
           else if c = CHR ''>'' then open_tag r tag (attribs @ [(name, [])])
           else if c = CHR '' '' then r\<lparr>mode := Attribs tag (attribs @ [(name, [])])\<rparr>
           else if name_char c then r\<lparr>mode := AttribName tag attribs (name @ [c])\<rparr>
           else r\<lparr>mode := Refused\<rparr>)
      | BeforeValue tag attribs name \<Rightarrow>
          (if c = CHR 0x22 \<or> c = CHR 0x27 then r\<lparr>mode := Quoted c tag attribs name []\<rparr>
           else if unquoted_char c then r\<lparr>mode := Unquoted tag attribs name [c]\<rparr>
           else r\<lparr>mode := Refused\<rparr>)
      | Quoted q tag attribs name v \<Rightarrow>
          (if c = q then r\<lparr>mode := Attribs tag (attribs @ [(name, v)])\<rparr>
           else if c = CHR ''&'' \<or> c = CHR 0x0D then r\<lparr>mode := Refused\<rparr>
           else r\<lparr>mode := Quoted q tag attribs name (v @ [c])\<rparr>)
      | Unquoted tag attribs name v \<Rightarrow>
          (if c = CHR ''>'' then open_tag r tag (attribs @ [(name, v)])
           else if c = CHR '' '' then r\<lparr>mode := Attribs tag (attribs @ [(name, v)])\<rparr>
           else if unquoted_char c then r\<lparr>mode := Unquoted tag attribs name (v @ [c])\<rparr>
           else r\<lparr>mode := Refused\<rparr>)
      | Refused \<Rightarrow> r)"

text \<open>
  The text is accepted when it ends outside every tag and element. \<open>cheerio_select\<close>
  is the reader as a value for \<open>select\<close>; on a text that the reader refuses it is
  not specified, and nothing is stated about it.
\<close>

definition cheerio_read :: "string \<Rightarrow> (string \<times> string) list list option" where
  "cheerio_read html =
     (let r = foldl read_char \<lparr>mode = InText, stack = [], found = []\<rparr> html
      in if mode r = InText \<and> stack r = [] then Some (found r) else None)"

definition cheerio_select :: selector where
  "cheerio_select html = the (cheerio_read html)"

section \<open>The cache synchroniser: \<^verbatim>\<open>State.getIssuesforRepo\<close>\<close>



record world =
  collection :: "Issue list"
  createIndexes_calls :: nat
  listForRepo_calls :: nat




text \<open>
  The operations of the collection. \<^verbatim>\<open>find({owner, repo})\<close> and
  \<^verbatim>\<open>deleteMany({owner, repo})\<close> select by the two fields. The unique index is on
  \<^verbatim>\<open>(owner, repo, issueId)\<close>: building it fails when two documents share a key.
  With the index in place \<^verbatim>\<open>insertMany\<close> inserts the documents in order and
  stops with an error at the first one whose key is already in the collection.
\<close>

definition collection_find :: "string \<Rightarrow> string \<Rightarrow> world \<Rightarrow> Issue list" where
  "collection_find owner' repo' w = filter (\<lambda>d. owner d = owner' \<and> repo d = repo') (collection w)"







section \<open>Sample data\<close>

text \<open>A context of the repository \<^verbatim>\<open>TokTok/c-toxcore\<close> with a given issue number and canonical id.\<close>

abbreviation sample_context :: "int \<Rightarrow> int option \<Rightarrow> unit IssueContext" where
  "sample_context n c \<equiv>
     \<lparr>github = (),
      issue = \<lparr>owner = ''TokTok'', repo = ''c-toxcore'', issueId = n,
               body = \<lparr>sections = [''text''], metadata = \<lparr>canonicalId = c\<rparr>\<rparr>\<rparr>\<rparr>"

text \<open>
  The block that \<^verbatim>\<open>printMetadata\<close> writes for a canonical id, with any text \<open>v\<close>
  as the value of the attribute: with the digits of the id it is the block as printed,
  with another text it is the block after someone has edited the value.
\<close>

abbreviation metadata_block :: "string \<Rightarrow> string" where
  "metadata_block v \<equiv>
     ''<details><summary>Issue metadata</summary><ul><li data-canonical-id=\"'' @ v
     @ ''\">Canonical link: <a></a></li></ul></details>''"




section \<open>Properties of \<^verbatim>\<open>findGaps\<close>\<close>

text \<open>
  C10. The four examples: \<^verbatim>\<open>findGaps([1,2,4,5], 10)\<close> is \<^verbatim>\<open>[3]\<close>,
  \<^verbatim>\<open>findGaps([], 5)\<close> is empty, \<^verbatim>\<open>findGaps([2,3], 10)\<close> is \<^verbatim>\<open>[1]\<close>, and
  \<^verbatim>\<open>findGaps([5], 3)\<close> returns at most three gaps, all below 5.
\<close>

theorem findGaps_examples:
  "findGaps [1, 2, 4, 5] 10 = [3]
   \<and> findGaps [] 5 = []
   \<and> findGaps [2, 3] 10 = [1]
   \<and> length (findGaps [5] 3) \<le> 3 \<and> list_all (\<lambda>g. g < 5) (findGaps [5] 3)"
  by code_simp

subsection \<open>The bound on the number of gaps\<close>

lemma shift_leading_dropWhile: "shift_leading xs = dropWhile (\<lambda>x. x < 1) xs"
  by (induction xs) auto

lemma shift_leading_positive: "\<forall>x\<in>set xs. 1 \<le> x \<Longrightarrow> shift_leading xs = xs"
  by (cases xs) auto

text \<open>
  One round of the loop, as an equation: the body computes the next index and list,
  and the loop goes on unless the list has reached \<open>maxGaps\<close> elements.
\<close>

lemma gaps_loop_step:
  assumes "array \<noteq> [] \<and> i < last array"
    and "idx' = (if idx < length array \<and> i = array ! idx then idx + 1 else idx)"
    and "gaps' = (if idx < length array \<and> i = array ! idx then gaps else gaps @ [i])"
  shows "gaps_loop array k i idx gaps =
           (if length gaps' = k then gaps' else gaps_loop array k (i + 1) idx' gaps')"
  using assms by (subst gaps_loop.simps) (simp add: Let_def)

lemma gaps_loop_stop:
  assumes "\<not> (array \<noteq> [] \<and> i < last array)"
  shows "gaps_loop array k i idx gaps = gaps"
  using assms by (subst gaps_loop.simps) auto

lemma gaps_loop_length:
  "length gaps < k \<Longrightarrow> length (gaps_loop array k i idx gaps) \<le> k"
proof (induction array k i idx gaps rule: gaps_loop.induct)
  case (1 array maxGaps i arrayIndex gaps)
  show ?case
  proof (cases "array \<noteq> [] \<and> i < last array")
    case False
    then show ?thesis using "1.prems" by (simp add: gaps_loop_stop)
  next
    case True
    define idx' where
      "idx' = (if arrayIndex < length array \<and> i = array ! arrayIndex
               then arrayIndex + 1 else arrayIndex)"
    define gaps' where
      "gaps' = (if arrayIndex < length array \<and> i = array ! arrayIndex
                then gaps else gaps @ [i])"
    have le: "length gaps' \<le> maxGaps" using "1.prems" by (simp add: gaps'_def)
    note step = gaps_loop_step [OF True idx'_def gaps'_def, of maxGaps]
    show ?thesis
    proof (cases "length gaps' = maxGaps")
      case True
      then show ?thesis using step by simp
    next
      case False
      then have "length gaps' < maxGaps" using le by simp
      then have "length (gaps_loop array maxGaps (i + 1) idx' gaps') \<le> maxGaps"
        using "1.IH" [OF True idx'_def gaps'_def False] by simp
      then show ?thesis using step False by simp
    qed
  qed
qed

lemma gaps_loop_ascending:
  "sorted_wrt (<) gaps \<Longrightarrow> \<forall>g\<in>set gaps. lo \<le> g \<and> g < i \<and> g < last array \<Longrightarrow> lo \<le> i \<Longrightarrow>
   sorted_wrt (<) (gaps_loop array k i idx gaps)
   \<and> (\<forall>g\<in>set (gaps_loop array k i idx gaps). lo \<le> g \<and> g < last array)"
proof (induction array k i idx gaps rule: gaps_loop.induct)
  case (1 array maxGaps i arrayIndex gaps)
  show ?case
  proof (cases "array \<noteq> [] \<and> i < last array")
    case False
    then show ?thesis using "1.prems" by (simp add: gaps_loop_stop)
  next
    case True
    define idx' where
      "idx' = (if arrayIndex < length array \<and> i = array ! arrayIndex
               then arrayIndex + 1 else arrayIndex)"
    define gaps' where
      "gaps' = (if arrayIndex < length array \<and> i = array ! arrayIndex
                then gaps else gaps @ [i])"
    have s: "sorted_wrt (<) gaps'"
      using "1.prems" by (auto simp: gaps'_def sorted_wrt_append)
    have b: "\<forall>g\<in>set gaps'. lo \<le> g \<and> g < i + 1 \<and> g < last array"
      using "1.prems" True by (auto simp: gaps'_def)
    note step = gaps_loop_step [OF True idx'_def gaps'_def, of maxGaps]
    show ?thesis
    proof (cases "length gaps' = maxGaps")
      case True
      then show ?thesis using step s b by simp
    next
      case False
      have "lo \<le> i + 1" using "1.prems" by simp
      from "1.IH" [OF True idx'_def gaps'_def False s b this]
      show ?thesis using step False by simp
    qed
  qed
qed

text \<open>
  With \<open>maxGaps\<close> at least 1 the doc comment of \<^verbatim>\<open>findGaps\<close> holds for every
  array: no more than \<open>maxGaps\<close> gaps, strictly ascending, each from 1 up to but
  not including the last element of the array once its leading values below 1 are gone.
\<close>

lemma findGaps_bound_any:
  assumes "0 < maxGaps"
  shows "length (findGaps array maxGaps) \<le> maxGaps
    \<and> sorted_wrt (<) (findGaps array maxGaps)
    \<and> (\<forall>g\<in>set (findGaps array maxGaps). 1 \<le> g \<and> g < last (shift_leading array))"
  using assms gaps_loop_length [of "[]" maxGaps "shift_leading array" 1 0]
    gaps_loop_ascending [of "[]" 1 1 "shift_leading array" maxGaps 0]
  by (simp add: findGaps_def findGaps_st_def Let_def)

lemma sorted_last_Max: "sorted xs \<Longrightarrow> xs \<noteq> [] \<Longrightarrow> last xs = Max (set xs)"
proof -
  assume s: "sorted xs" and ne: "xs \<noteq> []"
  obtain ys l where xs: "xs = ys @ [l]" using ne by (metis rev_exhaust)
  have "\<forall>x\<in>set ys. x \<le> l" using s by (simp add: xs sorted_append)
  then have "Max (set xs) = l" by (intro Max_eqI) (auto simp: xs)
  then show ?thesis by (simp add: xs)
qed

lemma findGaps_empty: "findGaps [] maxGaps = []"
  by (simp add: findGaps_def findGaps_st_def gaps_loop_stop)

text \<open>
  C4, as the specification states it. The bound on the number of gaps is stated for
  every natural number \<open>k\<close>. At \<open>k = 0\<close> it fails: the test
  \<^verbatim>\<open>gaps.length == maxGaps\<close> comes after the first push and is never true again, so
  \<^verbatim>\<open>findGaps([5], 0)\<close> returns four gaps.
\<close>

theorem findGaps_zero_maxGaps:
  "findGaps [5] 0 = [1, 2, 3, 4] \<and> \<not> length (findGaps [5] 0) \<le> 0"
  by code_simp

text \<open>
  C4, as the code has it. For every ascending list of positive integers and every
  \<open>maxGaps\<close> from 1 on, \<^verbatim>\<open>findGaps\<close> returns no more than \<open>maxGaps\<close> gaps, in
  strictly ascending order, each from 1 up to but not including the greatest element of
  the list. The only call of \<^verbatim>\<open>findGaps\<close>, in \<^verbatim>\<open>initialise\<close>, passes the number of
  contexts after the test that there is at least one.
\<close>

theorem findGaps_bound:
  assumes "sorted array" and "\<forall>x\<in>set array. 1 \<le> x" and "1 \<le> maxGaps"
  shows "length (findGaps array maxGaps) \<le> maxGaps
    \<and> sorted_wrt (<) (findGaps array maxGaps)
    \<and> (\<forall>g\<in>set (findGaps array maxGaps). 1 \<le> g \<and> g < Max (set array))"
proof (cases "array = []")
  case True
  then show ?thesis by (simp add: findGaps_empty)
next
  case False
  have "shift_leading array = array" using assms(2) by (rule shift_leading_positive)
  then have "last (shift_leading array) = Max (set array)"
    using sorted_last_Max [OF assms(1) False] by simp
  then show ?thesis using findGaps_bound_any [of maxGaps array] assms(3) by simp
qed

theorem findGaps_bound_witness:
  "length (findGaps [1, 2, 9] 3) \<le> 3 \<and> sorted_wrt (<) (findGaps [1, 2, 9] 3)
   \<and> list_all (\<lambda>g. 1 \<le> g \<and> g < 9) (findGaps [1, 2, 9] 3)"
proof -
  have 1: "sorted [1, 2, 9 :: int]" by simp
  have 2: "\<forall>x\<in>set [1, 2, 9 :: int]. 1 \<le> x" by simp
  have 3: "(1::nat) \<le> 3" by simp
  from findGaps_bound [OF 1 2 3] show ?thesis
    by (simp add: list_all_iff)
qed

subsection \<open>The effect on the argument\<close>

text \<open>
  C9, as the specification states it. \<^verbatim>\<open>findGaps\<close> is said to leave the caller's
  array unchanged. The leading values below 1 are removed from that array: here a
  leading \<^verbatim>\<open>0\<close> is gone after the call.
\<close>

theorem findGaps_argument_counterexample:
  "findGaps_st [0, 2] 5 = ([2], [1]) \<and> fst (findGaps_st [0, 2] 5) \<noteq> [0, 2]"
  by code_simp

text \<open>
  C9, as the code has it. After the call the caller's array is the argument without
  its leading run of values below 1; an array of values from 1 on is unchanged; and the
  gaps returned are those of the array so shortened.
\<close>

theorem findGaps_shifts_argument:
  "fst (findGaps_st array maxGaps) = dropWhile (\<lambda>x. x < 1) array
   \<and> ((\<forall>x\<in>set array. 1 \<le> x) \<longrightarrow> fst (findGaps_st array maxGaps) = array)
   \<and> findGaps array maxGaps = findGaps (fst (findGaps_st array maxGaps)) maxGaps"
proof -
  have idem: "shift_leading (shift_leading array) = shift_leading array"
    by (induction array) auto
  show ?thesis
    using shift_leading_positive [of array]
    by (simp add: findGaps_def findGaps_st_def Let_def idem shift_leading_dropWhile [symmetric])
qed

theorem findGaps_shifts_argument_witness:
  "fst (findGaps_st [2, 3] 10) = [2, 3]
   \<and> fst (findGaps_st [- 1, 0, 4] 10) = [4]
   \<and> findGaps [- 1, 0, 4] 10 = findGaps [4] 10"
proof -
  have pos: "\<forall>x\<in>set [2, 3 :: int]. 1 \<le> x" by simp
  have a: "fst (findGaps_st [2, 3] 10) = [2, 3]"
    using findGaps_shifts_argument [of "[2, 3]" 10] pos by blast
  have b: "fst (findGaps_st [- 1, 0, 4] 10) = [4]"
    using findGaps_shifts_argument [of "[- 1, 0, 4]" 10] by simp
  have c: "findGaps [- 1, 0, 4] 10 = findGaps [4] 10"
    using findGaps_shifts_argument [of "[- 1, 0, 4]" 10] b by simp
  show ?thesis using a b c by simp
qed

section \<open>Properties of the assignment\<close>

lemma context_canonicalId_set [simp]:
  "context_canonicalId (set_canonicalId c n) = Some n"
  by (simp add: context_canonicalId_def set_canonicalId_def)

lemma assign_loop_length [simp]: "length (assign_loop gaps n cs) = length cs"
  by (induction cs arbitrary: gaps n) auto

lemma assign_loop_untouched:
  "i < length cs \<Longrightarrow> truthy (context_canonicalId (cs ! i)) \<Longrightarrow>
   assign_loop gaps n cs ! i = cs ! i"
proof (induction cs arbitrary: gaps n i)
  case Nil
  then show ?case by simp
next
  case (Cons c cs)
  then show ?case by (cases i) auto
qed

text \<open>
  The ids written by the loop, in the order of the issues that had none: first the
  gaps from the last to the first, then the counter. The counter continues from the
  last gap that was popped, which is the first element of \<open>gaps\<close>, or from the
  initial \<open>nextId\<close> when there was no gap.
\<close>

lemma assign_loop_new_ids:
  "map (context_canonicalId \<circ> snd)
     (filter (\<lambda>(c, r). \<not> truthy (context_canonicalId c)) (zip cs (assign_loop gaps n cs)))
   = map (\<lambda>j. Some (if j < length gaps then rev gaps ! j
                      else (if gaps = [] then n else hd gaps) + int (j - length gaps) + 1))
       [0 ..< length (filter (\<lambda>c. \<not> truthy (context_canonicalId c)) cs)]"
proof (induction cs arbitrary: gaps n)
  case Nil
  then show ?case by simp
next
  case (Cons c cs)
  show ?case
  proof (cases "truthy (context_canonicalId c)")
    case True
    then show ?thesis using Cons.IH [of gaps n] by simp
  next
    case False
    show ?thesis
    proof (cases "gaps = []")
      case True
      then show ?thesis using False Cons.IH [of "[]" "n + 1"]
        by (simp add: map_upt_Suc del: upt_Suc)
    next
      case nonempty: False
      then obtain g gs where g: "gaps = gs @ [g]" by (metis rev_exhaust)
      have base: "(if gs = [] then g else hd gs) = hd (gs @ [g])" by (cases gs) auto
      show ?thesis using False nonempty Cons.IH [of gs g]
        by (simp add: g map_upt_Suc base nth_append del: upt_Suc cong: if_cong)
    qed
  qed
qed

text \<open>
  C6. An issue that already holds a canonical id is left as it is, and the issues
  without one receive the gaps from the end of the list before the counter is used:
  with gaps \<^verbatim>\<open>[3, 7]\<close> and two issues without an id, the first receives 7 and the
  second 3. The third part gives every id the loop writes: the \<open>j\<close>-th issue
  without an id receives the \<open>j\<close>-th gap counted from the end while there is one,
  and a counter value after that.
\<close>

theorem assign_loop_gaps_first:
  "length (assign_loop gaps nextId contexts) = length contexts
   \<and> (\<forall>i<length contexts. truthy (context_canonicalId (contexts ! i)) \<longrightarrow>
         assign_loop gaps nextId contexts ! i = contexts ! i)
   \<and> map (context_canonicalId \<circ> snd)
       (filter (\<lambda>(c, r). \<not> truthy (context_canonicalId c))
          (zip contexts (assign_loop gaps nextId contexts)))
     = map (\<lambda>j. Some (if j < length gaps then rev gaps ! j
                        else (if gaps = [] then nextId else hd gaps) + int (j - length gaps) + 1))
         [0 ..< length (filter (\<lambda>c. \<not> truthy (context_canonicalId c)) contexts)]
   \<and> (\<not> truthy (context_canonicalId c1) \<and> \<not> truthy (context_canonicalId c2) \<longrightarrow>
         assign_loop [3, 7] nextId [c1, c2] = [set_canonicalId c1 7, set_canonicalId c2 3])"
  using assign_loop_untouched [of _ contexts gaps nextId]
    assign_loop_new_ids [of contexts gaps nextId]
  by simp

theorem assign_loop_gaps_first_witness:
  "assign_loop [3, 7] 0
     [sample_context 1 (Some 5), sample_context 2 None, sample_context 3 None] ! 0
     = sample_context 1 (Some 5)
   \<and> assign_loop [3, 7] 0 [sample_context 2 None, sample_context 3 None]
     = [sample_context 2 (Some 7), sample_context 3 (Some 3)]"
proof -
  let ?cs = "[sample_context 1 (Some 5), sample_context 2 None, sample_context 3 None]"
  have t: "truthy (context_canonicalId (?cs ! 0))"
    by (simp add: truthy_def context_canonicalId_def)
  have "(0::nat) < length ?cs" by simp
  then have a: "assign_loop [3, 7] 0 ?cs ! 0 = ?cs ! 0"
    using assign_loop_gaps_first [of "[3, 7]" 0 ?cs] t by blast
  have u: "\<not> truthy (context_canonicalId (sample_context 2 None))
      \<and> \<not> truthy (context_canonicalId (sample_context 3 None))"
    by (simp add: truthy_def context_canonicalId_def)
  have b: "assign_loop [3, 7] 0 [sample_context 2 None, sample_context 3 None]
      = [set_canonicalId (sample_context 2 None) 7, set_canonicalId (sample_context 3 None) 3]"
    using assign_loop_gaps_first
      [of "[]" 0 "[]" "sample_context 2 None" "sample_context 3 None"] u
    by blast
  show ?thesis using a b by (simp add: set_canonicalId_def)
qed

text \<open>
  C1. Once the gaps are used up, the counter is said to start above every canonical
  id in use. In the code \<^verbatim>\<open>nextId\<close> starts at 0 and then holds the last gap that
  was popped; it is never set from the known ids. With one issue holding id 1 and one
  issue without an id there is no gap, and the second issue receives 1 as well. With
  one issue holding id 5 and six issues without an id, the gaps 4, 3, 2, 1 are given
  out and the counter goes on with 2 and 3, which are in use by then.
\<close>

theorem initialise_counter_reuses_ids:
  "map context_canonicalId (initialise [sample_context 1 (Some 1), sample_context 2 None])
     = [Some 1, Some 1]
   \<and> map context_canonicalId
       (initialise [sample_context 1 (Some 5), sample_context 2 None, sample_context 3 None,
          sample_context 4 None, sample_context 5 None, sample_context 6 None,
          sample_context 7 None])
     = [Some 5, Some 4, Some 3, Some 2, Some 1, Some 2, Some 3]"
  by code_simp

text \<open>
  C3. The known ids handed to \<^verbatim>\<open>findGaps\<close> are said to be in ascending numeric
  order. \<^verbatim>\<open>sort()\<close> without a comparison function orders numbers by their decimal
  strings, so 10 comes before 9.
\<close>

theorem knownIds_not_ascending:
  "knownIds [sample_context 1 (Some 9), sample_context 2 (Some 10)] = [10, 9]
   \<and> \<not> sorted (knownIds [sample_context 1 (Some 9), sample_context 2 (Some 10)])"
  by code_simp

text \<open>
  The call of \<^verbatim>\<open>findGaps\<close> in \<^verbatim>\<open>initialise\<close> comes after the test
  \<^verbatim>\<open>contexts.length === 0\<close>, so it asks for at least one gap and gets no more
  than it asks for.
\<close>

lemma initialise_findGaps_bound:
  "contexts \<noteq> [] \<Longrightarrow>
   length (findGaps (knownIds contexts) (length contexts)) \<le> length contexts"
  using findGaps_bound_any [of "length contexts" "knownIds contexts"] by simp

section \<open>Properties of numbers as strings\<close>

lemma digit_char_decimal: "d < 10 \<Longrightarrow> decimal_digit (digit_char d)"
proof -
  assume "d < 10"
  then have "d \<in> {0, 1, 2, 3, 4, 5, 6, 7, 8, 9}" by auto
  then show ?thesis
    by (auto simp: digit_char_def decimal_digit_def)
qed

lemma digit_value_digit_char: "d < 10 \<Longrightarrow> digit_value (digit_char d) = Some d"
proof -
  assume "d < 10"
  then have "d \<in> {0, 1, 2, 3, 4, 5, 6, 7, 8, 9}" by auto
  then show ?thesis
    by (auto simp: digit_char_def digit_value_def)
qed

lemma digits_decimal: "\<forall>c\<in>set (digits n). decimal_digit c"
proof (induction n rule: digits.induct)
  case (1 n)
  show ?case
  proof (cases "n < 10")
    case True
    then show ?thesis by (subst digits.simps) (simp add: digit_char_decimal)
  next
    case False
    then show ?thesis using 1 by (subst digits.simps) (simp add: digit_char_decimal)
  qed
qed

lemma digits_nonempty: "digits n \<noteq> []"
  by (subst digits.simps) simp

lemma radix_digit_decimal: "radix_digit 10 c = decimal_digit c"
  by (auto simp: decimal_digit_def radix_digit_def digit_value_def Let_def)

lemma digits_value:
  "foldl (\<lambda>a c. a * 10 + the (digit_value c)) 0 (digits n) = n"
proof (induction n rule: digits.induct)
  case (1 n)
  show ?case
  proof (cases "n < 10")
    case True
    then show ?thesis by (subst digits.simps) (simp add: digit_value_digit_char)
  next
    case False
    then show ?thesis using 1 by (subst digits.simps) (simp add: digit_value_digit_char)
  qed
qed

lemma decimal_digit_facts:
  "decimal_digit c \<Longrightarrow>
     \<not> isWhiteSpace c \<and> c \<noteq> CHR ''-'' \<and> c \<noteq> CHR ''+'' \<and> c \<noteq> CHR ''x''
     \<and> c \<noteq> CHR ''X'' \<and> c \<noteq> CHR 0x0D \<and> c \<noteq> CHR 0x22"
  by (auto simp: decimal_digit_def isWhiteSpace_def)

lemma take2_digits: "take 2 (digits n) \<noteq> ''0x'' \<and> take 2 (digits n) \<noteq> ''0X''"
proof -
  have x: "\<not> decimal_digit (CHR ''x'')" and X: "\<not> decimal_digit (CHR ''X'')"
    by (simp_all add: decimal_digit_def)
  have "CHR ''x'' \<notin> set (take 2 (digits n))" "CHR ''X'' \<notin> set (take 2 (digits n))"
    using digits_decimal [of n] x X by (auto dest: in_set_takeD)
  then show ?thesis by auto
qed

text \<open>\<^verbatim>\<open>parseInt\<close> on a text that starts with neither white space nor a sign nor a hexadecimal prefix.\<close>

lemma parseInt_unsigned:
  assumes "S \<noteq> []" "\<not> isWhiteSpace (hd S)" "hd S \<noteq> CHR ''-''" "hd S \<noteq> CHR ''+''"
    and "take 2 S \<noteq> ''0x''" "take 2 S \<noteq> ''0X''"
  shows "parseInt S =
    (if takeWhile (radix_digit 10) S = [] then NaN
     else Num (int (foldl (\<lambda>a c. a * 10 + the (digit_value c)) 0
                      (takeWhile (radix_digit 10) S))))"
proof -
  obtain c cs where S: "S = c # cs" using assms(1) by (cases S) auto
  have ws: "dropWhile isWhiteSpace S = S" using assms(2) S by simp
  show ?thesis
    unfolding parseInt_def ws Let_def using assms by simp
qed

lemma parseInt_negative:
  assumes "take 2 S \<noteq> ''0x''" "take 2 S \<noteq> ''0X''"
  shows "parseInt (CHR ''-'' # S) =
    (if takeWhile (radix_digit 10) S = [] then NaN
     else Num (- int (foldl (\<lambda>a c. a * 10 + the (digit_value c)) 0
                        (takeWhile (radix_digit 10) S))))"
proof -
  have ws: "dropWhile isWhiteSpace (CHR ''-'' # S) = CHR ''-'' # S"
    by (simp add: isWhiteSpace_def)
  show ?thesis
    unfolding parseInt_def ws Let_def using assms by simp
qed

lemma takeWhile_digits: "takeWhile (radix_digit 10) (digits n) = digits n"
  using digits_decimal by (simp add: takeWhile_eq_all_conv radix_digit_decimal)

lemma hd_digits: "decimal_digit (hd (digits n))"
  using digits_decimal [of n] digits_nonempty [of n] by (cases "digits n") auto

lemma parseInt_digits: "parseInt (digits n) = Num (int n)"
  using parseInt_unsigned [of "digits n"] digits_nonempty [of n] take2_digits [of n]
    decimal_digit_facts [OF hd_digits [of n]]
  by (simp add: takeWhile_digits digits_value)

lemma parseInt_neg_digits: "parseInt (CHR ''-'' # digits n) = Num (- int n)"
  using parseInt_negative [of "digits n"] digits_nonempty [of n] take2_digits [of n]
  by (simp add: takeWhile_digits digits_value)

text \<open>Reading back what \<^verbatim>\<open>toString\<close> wrote gives the number.\<close>

lemma parseInt_number_toString: "parseInt (number_toString n) = Num n"
  by (simp add: number_toString_def parseInt_digits parseInt_neg_digits)


lemma hd_digits_nonzero: "0 < n \<Longrightarrow> hd (digits n) \<noteq> CHR ''0''"
proof (induction n rule: digits.induct)
  case (1 n)
  show ?case
  proof (cases "n < 10")
    case True
    then have "n \<in> {1, 2, 3, 4, 5, 6, 7, 8, 9}" using "1.prems" by auto
    then show ?thesis by (subst digits.simps) (auto simp: digit_char_def)
  next
    case False
    then have "hd (digits (n div 10)) \<noteq> CHR ''0''" using 1 by simp
    then show ?thesis using False digits_nonempty [of "n div 10"]
      by (subst digits.simps) simp
  qed
qed

text \<open>The digits of a positive number followed by anything but a digit read as the number.\<close>

lemma parseInt_digits_prefix:
  assumes "0 < n" "rest = [] \<or> \<not> decimal_digit (hd rest)"
  shows "parseInt (digits n @ rest) = Num (int n)"
proof -
  have ne: "digits n @ rest \<noteq> []" using digits_nonempty by simp
  have hd: "hd (digits n @ rest) = hd (digits n)" using digits_nonempty by simp
  have tw: "takeWhile (radix_digit 10) (digits n @ rest) = digits n"
    using assms(2) digits_decimal [of n]
    by (cases rest) (auto simp: takeWhile_append2 radix_digit_decimal takeWhile_eq_all_conv)
  have "hd (take 2 (digits n @ rest)) = hd (digits n)"
    using digits_nonempty [of n] by (cases "digits n") auto
  then have nohex: "take 2 (digits n @ rest) \<noteq> ''0x''" "take 2 (digits n @ rest) \<noteq> ''0X''"
    using hd_digits_nonzero [OF assms(1)] by auto
  show ?thesis
    using parseInt_unsigned [OF ne _ _ _ nohex] decimal_digit_facts [OF hd_digits [of n]]
    by (simp add: hd tw digits_value digits_nonempty)
qed




section \<open>Properties of \<^verbatim>\<open>split\<close> and \<^verbatim>\<open>join\<close>\<close>

text \<open>
  An occurrence of the separator that starts inside \<open>s\<close>, in a text where \<open>s\<close> is
  followed by the separator, lies within \<open>s\<close> and all but the last character of
  that separator.
\<close>

lemma prefix_inside:
  assumes "separator \<noteq> []" "s \<noteq> []" "prefix separator (s @ separator @ rest)"
  shows "prefix separator (s @ butlast separator)"
proof -
  have "s @ separator @ rest = (s @ butlast separator) @ (last separator # rest)"
    using assms(1) by simp
  then have "prefix (s @ butlast separator) (s @ separator @ rest)"
    by (metis prefixI)
  moreover have "length separator \<le> length (s @ butlast separator)"
    using assms(1,2) by (cases s) auto
  ultimately show ?thesis
    using assms(3) prefix_length_prefix by blast
qed

lemma split_from_section:
  assumes "separator \<noteq> []" "\<not> sublist separator (s @ butlast separator)"
  shows "split_from separator piece (s @ separator @ rest)
           = (piece @ s) # split_from separator [] rest"
  using assms(2)
proof (induction s arbitrary: piece)
  case Nil
  obtain c cs where sep: "separator @ rest = c # cs"
    using assms(1) by (cases separator) auto
  have "prefix separator (c # cs)" using sep by (metis prefixI)
  moreover have "drop (length separator) (c # cs) = rest"
    using sep by (metis append_eq_conv_conj)
  ultimately show ?case using assms(1) sep by simp
next
  case (Cons a s)
  have "\<not> prefix separator ((a # s) @ separator @ rest)"
  proof
    assume "prefix separator ((a # s) @ separator @ rest)"
    then have "prefix separator ((a # s) @ butlast separator)"
      using prefix_inside [OF assms(1), of "a # s" rest] by simp
    then show False using Cons.prems prefix_imp_sublist by blast
  qed
  moreover have "\<not> sublist separator (s @ butlast separator)"
    using Cons.prems by (metis append_Cons sublist_Cons_right)
  ultimately show ?case using Cons.IH [of "piece @ [a]"] by simp
qed

text \<open>
  Splitting what was joined gives the pieces back when the separator occurs only at
  the joins: it starts inside none of the pieces \<open>xs\<close>, and the last piece \<open>t\<close>
  is not cut.
\<close>

lemma split_join:
  assumes "separator \<noteq> []"
    and "\<forall>s\<in>set xs. \<not> sublist separator (s @ butlast separator)"
    and "\<And>piece. split_from separator piece t = [piece @ t]"
  shows "split separator (join separator (xs @ [t])) = xs @ [t]"
proof -
  have "split_from separator [] (join separator (xs @ [t])) = xs @ [t]"
    using assms(2)
  proof (induction xs)
    case Nil
    then show ?case using assms(3) [of "[]"] by simp
  next
    case (Cons x xs)
    obtain y ys where y: "xs @ [t] = y # ys" by (cases "xs @ [t]") auto
    have "join separator ((x # xs) @ [t]) = x @ separator @ join separator (xs @ [t])"
      using y by simp
    then show ?case
      using Cons split_from_section [OF assms(1), of x "[]"] by simp
  qed
  then show ?thesis using assms(1) by (simp add: split_def)
qed

text \<open>
  The pieces that \<^verbatim>\<open>split\<close> returns, but for the last one, are pieces that
  \<open>split_join\<close> accepts: each was cut at the first occurrence of the separator.
\<close>

lemma split_from_nonempty: "split_from separator piece t \<noteq> []"
  by (induction separator piece t rule: split_from.induct) auto

lemma sublist_occurrence:
  assumes "sublist sep X"
  shows "\<exists>i. i + length sep \<le> length X \<and> prefix sep (drop i X)"
proof -
  obtain ps ss where "X = ps @ sep @ ss" using assms by (auto simp: sublist_def)
  then have "length ps + length sep \<le> length X \<and> prefix sep (drop (length ps) X)"
    by simp
  then show ?thesis by blast
qed

lemma split_from_pieces:
  "separator \<noteq> [] \<Longrightarrow>
   \<forall>i<length piece. \<not> prefix separator (drop i (piece @ t)) \<Longrightarrow>
   \<forall>p\<in>set (butlast (split_from separator piece t)).
      \<not> sublist separator (p @ butlast separator)"
proof (induction separator piece t rule: split_from.induct)
  case (1 separator piece)
  then show ?case by simp
next
  case (2 separator piece c cs)
  show ?case
  proof (cases "separator \<noteq> [] \<and> prefix separator (c # cs)")
    case True
    then obtain rest where rest: "c # cs = separator @ rest" by (auto simp: prefix_def)
    have piece: "\<not> sublist separator (piece @ butlast separator)"
    proof
      assume "sublist separator (piece @ butlast separator)"
      then obtain i where i: "i + length separator \<le> length (piece @ butlast separator)"
        and p: "prefix separator (drop i (piece @ butlast separator))"
        using sublist_occurrence by blast
      have "length (butlast separator) < length separator" using True by simp
      then have lt: "i < length piece" using i by simp
      have "piece @ c # cs = (piece @ butlast separator) @ (last separator # rest)"
        using rest True by simp
      then have "drop i (piece @ c # cs)
          = drop i (piece @ butlast separator) @ (last separator # rest)"
        using i by simp
      then have "prefix separator (drop i (piece @ c # cs))"
        using p by (metis prefix_prefix)
      then show False using "2.prems"(2) lt by blast
    qed
    have "\<forall>p\<in>set (butlast (split_from separator [] (drop (length separator) (c # cs)))).
        \<not> sublist separator (p @ butlast separator)"
      using "2.IH"(1) [OF True "2.prems"(1)] by simp
    then show ?thesis
      using True piece split_from_nonempty [of separator "[]" "drop (length separator) (c # cs)"]
      by simp
  next
    case False
    have inv: "\<forall>i<length (piece @ [c]). \<not> prefix separator (drop i ((piece @ [c]) @ cs))"
    proof (intro allI impI)
      fix i assume "i < length (piece @ [c])"
      then consider "i < length piece" | "i = length piece" by fastforce
      then show "\<not> prefix separator (drop i ((piece @ [c]) @ cs))"
      proof cases
        case 1
        then show ?thesis using "2.prems"(2) by simp
      next
        case 2
        then show ?thesis using False "2.prems"(1) by simp
      qed
    qed
    have "\<forall>p\<in>set (butlast (split_from separator (piece @ [c]) cs)).
        \<not> sublist separator (p @ butlast separator)"
      by (rule "2.IH"(2) [OF False "2.prems"(1) inv])
    moreover have "split_from separator piece (c # cs) = split_from separator (piece @ [c]) cs"
      using False by auto
    ultimately show ?thesis by simp
  qed
qed

lemma split_pieces:
  assumes "separator \<noteq> []"
  shows "\<forall>p\<in>set (butlast (split separator t)). \<not> sublist separator (p @ butlast separator)"
  using split_from_pieces [OF assms, of "[]" t] assms by (simp add: split_def)

lemma SEPARATOR_nonempty: "SEPARATOR \<noteq> []"
  by (simp add: SEPARATOR_def)

text \<open>The separator starts with a carriage return: text without one is read through.\<close>

lemma split_from_skip:
  "CHR 0x0D \<notin> set ds \<Longrightarrow>
   split_from SEPARATOR piece (ds @ rest) = split_from SEPARATOR (piece @ ds) rest"
proof (induction ds arbitrary: piece)
  case Nil
  then show ?case by simp
next
  case (Cons d ds)
  have "\<not> prefix SEPARATOR (d # ds @ rest)"
    using Cons.prems by (simp add: SEPARATOR_def)
  then show ?case using Cons by simp
qed

text \<open>
  The marker comment followed by markup is not cut: its only carriage return is the
  one of the marker, and what follows it is not the rest of the separator.
\<close>

lemma split_from_metadata_block:
  assumes "CHR 0x0D \<notin> set html" "html \<noteq> []" "hd html = CHR ''<''"
  shows "split_from SEPARATOR piece (DO_NOT_EDIT @ html) = [piece @ DO_NOT_EDIT @ html]"
proof -
  obtain cs where html: "html = CHR ''<'' # cs" using assms(2,3) by (cases html) auto
  have "split_from SEPARATOR piece (DO_NOT_EDIT @ html)
      = split_from SEPARATOR (piece @ ''<!-- DO NOT EDIT -->'') (CHR 0x0D # CHR 0x0A # html)"
    using split_from_skip [of "''<!-- DO NOT EDIT -->''" piece "CHR 0x0D # CHR 0x0A # html"]
    by (simp add: DO_NOT_EDIT_def)
  also have "\<dots> = split_from SEPARATOR (piece @ ''<!-- DO NOT EDIT -->'' @ [CHR 0x0D])
                      ((CHR 0x0A # html) @ [])"
    by (simp add: SEPARATOR_def html)
  also have "\<dots> = split_from SEPARATOR
                      ((piece @ ''<!-- DO NOT EDIT -->'' @ [CHR 0x0D]) @ (CHR 0x0A # html)) []"
    using assms(1) by (intro split_from_skip) simp
  finally show ?thesis by (simp add: DO_NOT_EDIT_def)
qed

section \<open>Properties of the metadata microformat\<close>

lemma number_toString_chars:
  "c \<in> set (number_toString n) \<Longrightarrow> c = CHR ''-'' \<or> decimal_digit c"
  using digits_decimal by (auto simp: number_toString_def split: if_splits)

lemma printMetadata_Some:
  "printMetadata (Some \<lparr>canonicalId = Some n\<rparr>) = Some (metadata_block (number_toString n))"
  by (simp add: printMetadata_def addField_def)

lemma metadata_block_no_CR: "CHR 0x0D \<notin> set (metadata_block (number_toString n))"
  using number_toString_chars [of "CHR 0x0D" n] decimal_digit_facts [of "CHR 0x0D"]
  by auto

text \<open>
  The loop over the selected elements keeps what the last element with the key
  \<^verbatim>\<open>canonicalId\<close> gave: an element without the key changes nothing. The value read
  from that element decides the result: \<^verbatim>\<open>NaN\<close> and numbers below 1 become
  \<^verbatim>\<open>null\<close>.
\<close>

lemma foldl_no_key:
  "\<forall>d\<in>set post. map_of d k = None \<Longrightarrow>
   foldl (\<lambda>cur data. case map_of data k of None \<Rightarrow> cur | Some v \<Rightarrow> Some (parseInt v)) cur post
     = cur"
  by (induction post arbitrary: cur) auto

lemma parseMetadata_decided:
  assumes "select html = pre @ [data] @ post" and "map_of data ''canonicalId'' = Some v"
    and "\<forall>d\<in>set post. map_of d ''canonicalId'' = None"
  shows "parseMetadata select html =
     Some \<lparr>canonicalId = (case parseInt v of NaN \<Rightarrow> None
                           | Num n \<Rightarrow> if n < 1 then None else Some n)\<rparr>"
  using assms(1,2) foldl_no_key [OF assms(3)]
  by (simp add: parseMetadata_def Let_def split: number.splits)

lemma parseMetadata_last:
  assumes "select html = pre @ [data]" "map_of data ''canonicalId'' = Some v"
  shows "parseMetadata select html =
     Some \<lparr>canonicalId = (case parseInt v of NaN \<Rightarrow> None
                           | Num n \<Rightarrow> if n < 1 then None else Some n)\<rparr>"
  using parseMetadata_decided [of select html pre data "[]" v] assms by simp


lemma parseMetadata_positive:
  "parseMetadata select html = Some m \<Longrightarrow> canonicalId m = Some n \<Longrightarrow> 1 \<le> n"
  by (auto simp: parseMetadata_def Let_def split: if_splits option.splits number.splits)


subsection \<open>The reader on a printed block\<close>

text \<open>
  On the block printed for a canonical id, after the marker, the reader finds the one
  list item with the digits as its value. While it reads a quoted value it appends
  every character that is not the quote, \<^verbatim>\<open>&\<close> or a carriage return; the decimal
  form of a number has none of these and is not in braces or brackets.
\<close>

lemma read_char_quoted:
  "read_char (r\<lparr>mode := Quoted q tag attribs name v\<rparr>) c =
     (if c = q then r\<lparr>mode := Attribs tag (attribs @ [(name, v)])\<rparr>
      else if c = CHR ''&'' \<or> c = CHR 0x0D then r\<lparr>mode := Refused\<rparr>
      else r\<lparr>mode := Quoted q tag attribs name (v @ [c])\<rparr>)"
  by simp

lemma read_value:
  "q \<notin> set ds \<Longrightarrow> CHR ''&'' \<notin> set ds \<Longrightarrow> CHR 0x0D \<notin> set ds \<Longrightarrow>
   foldl read_char (r\<lparr>mode := Quoted q tag attribs name v\<rparr>) (ds @ rest)
     = foldl read_char (r\<lparr>mode := Quoted q tag attribs name (v @ ds)\<rparr>) rest"
proof (induction ds arbitrary: v)
  case Nil
  then show ?case by simp
next
  case (Cons d ds)
  then show ?case by (auto simp add: read_char_quoted simp del: read_char.simps)
qed

lemma number_toString_plain:
  "CHR 0x22 \<notin> set (number_toString n) \<and> CHR ''&'' \<notin> set (number_toString n)
   \<and> CHR 0x0D \<notin> set (number_toString n) \<and> \<not> json_like (number_toString n)"
proof -
  have a: "\<And>c. c \<in> set (number_toString n) \<Longrightarrow> c = CHR ''-'' \<or> decimal_digit c"
    by (rule number_toString_chars)
  have ne: "number_toString n \<noteq> []" by (simp add: number_toString_def digits_nonempty)
  then have "hd (number_toString n) \<in> set (number_toString n)" by simp
  then have "hd (number_toString n) = CHR ''-'' \<or> decimal_digit (hd (number_toString n))"
    using a by blast
  then have "\<not> json_like (number_toString n)"
    by (auto simp: json_like_def decimal_digit_def)
  moreover have "\<not> decimal_digit (CHR 0x22)" "\<not> decimal_digit (CHR ''&'')" "\<not> decimal_digit (CHR 0x0D)"
    by (simp_all add: decimal_digit_def)
  ultimately show ?thesis using a by auto
qed

lemma read_before_value:
  "foldl read_char \<lparr>mode = InText, stack = [], found = []\<rparr>
      (DO_NOT_EDIT @ ''<details><summary>Issue metadata</summary><ul><li data-canonical-id=\"'')
   = \<lparr>mode = Quoted (CHR 0x22) ''li'' [] ''data-canonical-id'' [],
      stack = [''ul'', ''details''], found = []\<rparr>"
  by code_simp

lemma upper_i: "upper (CHR ''i'') = CHR ''I''"
  by code_simp

lemma camelCase_canonical_id: "camelCase ''canonical-id'' = ''canonicalId''"
  by code_simp

lemma read_after_value:
  assumes "\<not> json_like v"
  shows "foldl read_char
      \<lparr>mode = Quoted (CHR 0x22) ''li'' [] ''data-canonical-id'' v,
       stack = [''ul'', ''details''], found = []\<rparr>
      ''\">Canonical link: <a></a></li></ul></details>''
   = \<lparr>mode = InText, stack = [], found = [[(''canonicalId'', v)]]\<rparr>"
  using assms
  by (simp add: open_tag_def close_tag_def data_of_def camelCase_canonical_id upper_i
      lower_letter_def name_char_def)

lemma cheerio_read_block:
  "cheerio_read (DO_NOT_EDIT @ metadata_block (number_toString n))
     = Some [[(''canonicalId'', number_toString n)]]"
proof -
  let ?r1 = "\<lparr>mode = Quoted (CHR 0x22) ''li'' [] ''data-canonical-id'' [],
             stack = [''ul'', ''details''], found = []\<rparr>"
  let ?end = "''\">Canonical link: <a></a></li></ul></details>''"
  have "foldl read_char ?r1 (number_toString n @ ?end)
      = foldl read_char
          \<lparr>mode = Quoted (CHR 0x22) ''li'' [] ''data-canonical-id'' (number_toString n),
           stack = [''ul'', ''details''], found = []\<rparr> ?end"
    using read_value [where ds = "number_toString n" and r = ?r1 and tag = "''li''"
        and attribs = "[]" and name = "''data-canonical-id''" and v = "[]" and q = "CHR 0x22"
        and rest = ?end]
      number_toString_plain [of n]
    by (simp del: read_char.simps foldl_Cons)
  then have "foldl read_char ?r1 (number_toString n @ ?end)
      = \<lparr>mode = InText, stack = [], found = [[(''canonicalId'', number_toString n)]]\<rparr>"
    using read_after_value [of "number_toString n"] number_toString_plain [of n]
    by (simp del: read_char.simps foldl_Cons)
  moreover have "foldl read_char \<lparr>mode = InText, stack = [], found = []\<rparr>
      (DO_NOT_EDIT @ metadata_block (number_toString n))
    = foldl read_char ?r1 (number_toString n @ ?end)"
    using read_before_value
      foldl_append [of read_char "\<lparr>mode = InText, stack = [], found = []\<rparr>"
        "DO_NOT_EDIT @ ''<details><summary>Issue metadata</summary><ul><li data-canonical-id=\"''"
        "number_toString n @ ?end"]
    by (simp del: read_char.simps foldl_Cons foldl_append)
  ultimately show ?thesis
    by (simp add: cheerio_read_def del: read_char.simps foldl_Cons foldl_append)
qed

lemma cheerio_select_block:
  "cheerio_select (DO_NOT_EDIT @ metadata_block (number_toString n))
     = [[(''canonicalId'', number_toString n)]]"
  by (simp add: cheerio_select_def cheerio_read_block del: append.simps)

subsection \<open>Reading the canonical id\<close>




section \<open>Properties of the body codec\<close>

text \<open>
  Printing a body and parsing the text again, for a body with a canonical id: the
  text splits into the sections and the block, the block is recognised, and the id is
  read from it.
\<close>

lemma roundtrip_with_id:
  assumes "canonicalId (metadata b) = Some n" and "1 \<le> n" and "n < 2 ^ 53"
    and "\<forall>s\<in>set (sections b). \<not> sublist SEPARATOR (s @ butlast SEPARATOR)"
    and "select (DO_NOT_EDIT @ the (printMetadata (Some (metadata b))))
           = [[(''canonicalId'', number_toString n)]]"
  shows "parseIssueBody select (printIssueBody b) = b"
proof -

  define html where "html = metadata_block (number_toString n)"
  have m: "metadata b = \<lparr>canonicalId = Some n\<rparr>" using assms(1) by (cases "metadata b") simp
  have html: "printMetadata (Some (metadata b)) = Some html"
    by (simp add: m printMetadata_Some html_def)
  have shape: "html \<noteq> []" "hd html = CHR ''<''" by (simp_all add: html_def)
  have noCR: "CHR 0x0D \<notin> set html" unfolding html_def by (rule metadata_block_no_CR)
  have printed: "printIssueBody b = join SEPARATOR (sections b @ [DO_NOT_EDIT @ html])"
    using shape by (simp add: printIssueBody_def html)
  have sp: "split SEPARATOR (printIssueBody b) = sections b @ [DO_NOT_EDIT @ html]"
    unfolding printed
    by (rule split_join [OF SEPARATOR_nonempty assms(4)])
       (rule split_from_metadata_block [OF noCR shape])
  have sel: "select (DO_NOT_EDIT @ html) = [] @ [[(''canonicalId'', number_toString n)]]"
    using assms(5) html by simp
  have pm: "parseMetadata select (DO_NOT_EDIT @ html) = Some \<lparr>canonicalId = Some n\<rparr>"
    using parseMetadata_last [of select "DO_NOT_EDIT @ html" "[]" _ "number_toString n", OF sel]
      assms(2)
    by (simp add: parseInt_number_toString)
  have ne: "DO_NOT_EDIT @ html \<noteq> []" by (simp add: DO_NOT_EDIT_def)
  show ?thesis
    using ne by (simp add: parseIssueBody_def sp pm Let_def m [symmetric])
qed

text \<open>
  For a body without a canonical id the block with the empty list is printed; on
  parsing, no list item is found in it and it stays a section.
\<close>

lemma printIssueBody_without_id:
  assumes "canonicalId (metadata b) = None"
  shows "printIssueBody b = join SEPARATOR (sections b
     @ [DO_NOT_EDIT @ ''<details><summary>Issue metadata</summary><ul></ul></details>''])"
proof -
  have "metadata b = \<lparr>canonicalId = None\<rparr>" using assms by (cases "metadata b") simp
  then show ?thesis
    by (simp add: printIssueBody_def printMetadata_def addField_def)
qed

lemma roundtrip_without_id:
  assumes "canonicalId (metadata b) = None"
    and "\<forall>s\<in>set (sections b). \<not> sublist SEPARATOR (s @ butlast SEPARATOR)"
    and "select (DO_NOT_EDIT @ ''<details><summary>Issue metadata</summary><ul></ul></details>'')
           = []"
  shows "parseIssueBody select (printIssueBody b)
     = \<lparr>sections = sections b
          @ [DO_NOT_EDIT @ ''<details><summary>Issue metadata</summary><ul></ul></details>''],
        metadata = newMetadata\<rparr>"
proof -
  let ?html = "''<details><summary>Issue metadata</summary><ul></ul></details>''"
  have sp: "split SEPARATOR (printIssueBody b) = sections b @ [DO_NOT_EDIT @ ?html]"
    unfolding printIssueBody_without_id [OF assms(1)]
    by (rule split_join [OF SEPARATOR_nonempty assms(2)])
       (rule split_from_metadata_block, simp_all)
  have pm: "parseMetadata select (DO_NOT_EDIT @ ?html) = None"
    using assms(3) by (simp add: parseMetadata_def)
  show ?thesis
    by (simp add: parseIssueBody_def sp pm Let_def)
qed

text \<open>With the reader in the place of cheerio, no assumption on what is found is left.\<close>

lemma roundtrip_with_id_reader:
  assumes "canonicalId (metadata b) = Some n" and "1 \<le> n" and "n < 2 ^ 53"
    and "\<forall>s\<in>set (sections b). \<not> sublist SEPARATOR (s @ butlast SEPARATOR)"
  shows "parseIssueBody cheerio_select (printIssueBody b) = b"
proof -
  have "metadata b = \<lparr>canonicalId = Some n\<rparr>" using assms(1) by (cases "metadata b") simp
  then have "cheerio_select (DO_NOT_EDIT @ the (printMetadata (Some (metadata b))))
      = [[(''canonicalId'', number_toString n)]]"
    using cheerio_select_block [of n] by (simp add: printMetadata_Some)
  then show ?thesis using assms by (intro roundtrip_with_id)
qed

text \<open>
  A body that \<^verbatim>\<open>parseIssueBody\<close> returned with a canonical id is given back by
  printing and parsing: its id is positive and its sections were cut by \<^verbatim>\<open>split\<close>.
\<close>

lemma parseIssueBody_idempotent:
  assumes "b = parseIssueBody select bodyText" and "canonicalId (metadata b) = Some n"
    and "n < 2 ^ 53"
    and "select (DO_NOT_EDIT @ the (printMetadata (Some (metadata b))))
           = [[(''canonicalId'', number_toString n)]]"
  shows "parseIssueBody select (printIssueBody b) = b"
proof -
  define pieces where "pieces = split SEPARATOR bodyText"
  define found where
    "found = (if last pieces \<noteq> [] then parseMetadata select (last pieces) else None)"
  have b: "b = \<lparr>sections = (if found \<noteq> None then butlast pieces else pieces),
                 metadata = (case found of Some m \<Rightarrow> m | None \<Rightarrow> newMetadata)\<rparr>"
    unfolding assms(1) parseIssueBody_def Let_def pieces_def found_def by (rule refl)
  obtain m where m: "found = Some m"
    using assms(2) b by (cases found) (simp_all add: newMetadata_def)
  have "parseMetadata select (last pieces) = Some m"
    using m by (simp add: found_def split: if_splits)
  then have pos: "1 \<le> n" using parseMetadata_positive [of select "last pieces" m n] assms(2) b m
    by simp
  have "sections b = butlast pieces" using b m by simp
  then have secs: "\<forall>s\<in>set (sections b). \<not> sublist SEPARATOR (s @ butlast SEPARATOR)"
    using split_pieces [OF SEPARATOR_nonempty, of bodyText] by (simp add: pieces_def)
  show ?thesis
    using assms(2) pos assms(3) secs assms(4) by (rule roundtrip_with_id)
qed

text \<open>
  C2. A body with default metadata is said to print without a metadata block,
  \<^verbatim>\<open>printMetadata\<close> returning \<^verbatim>\<open>null\<close> for it. The guard of
  \<^verbatim>\<open>printMetadata\<close> tests the record, not its fields, so a block with an empty
  list is printed and appended. \<^verbatim>\<open>parseMetadata\<close> finds no list item in that block,
  so on reading it back the metadata is the default and the block has become a
  second content section.
\<close>

theorem printIssueBody_default_metadata:
  "printMetadata (Some newMetadata)
     = Some ''<details><summary>Issue metadata</summary><ul></ul></details>''
   \<and> printIssueBody \<lparr>sections = [''hello''], metadata = newMetadata\<rparr>
     = ''hello'' @ SEPARATOR @ DO_NOT_EDIT
         @ ''<details><summary>Issue metadata</summary><ul></ul></details>''
   \<and> parseIssueBody cheerio_select
       (printIssueBody \<lparr>sections = [''hello''], metadata = newMetadata\<rparr>)
     = \<lparr>sections = [''hello'',
           DO_NOT_EDIT @ ''<details><summary>Issue metadata</summary><ul></ul></details>''],
        metadata = newMetadata\<rparr>"
  by code_simp

text \<open>
  C5, as the specification states it. Printing and parsing is said to give back
  every body with a canonical id. A section that contains the separator is read back
  as two sections, and the id 0 is read back as no id.
\<close>

theorem roundtrip_counterexample:
  "parseIssueBody cheerio_select
     (printIssueBody \<lparr>sections = [''a'' @ SEPARATOR @ ''b''],
                      metadata = \<lparr>canonicalId = Some 1\<rparr>\<rparr>)
     = \<lparr>sections = [''a'', ''b''], metadata = \<lparr>canonicalId = Some 1\<rparr>\<rparr>
   \<and> parseIssueBody cheerio_select
       (printIssueBody \<lparr>sections = [''a'' @ SEPARATOR @ ''b''],
                        metadata = \<lparr>canonicalId = Some 1\<rparr>\<rparr>)
     \<noteq> \<lparr>sections = [''a'' @ SEPARATOR @ ''b''], metadata = \<lparr>canonicalId = Some 1\<rparr>\<rparr>
   \<and> parseIssueBody cheerio_select
       (printIssueBody \<lparr>sections = [''a''], metadata = \<lparr>canonicalId = Some 0\<rparr>\<rparr>)
     = \<lparr>sections = [''a''], metadata = \<lparr>canonicalId = None\<rparr>\<rparr>"
  by code_simp

text \<open>
  C5, as the code has it. Printing and parsing gives the body back when the canonical
  id is a positive integer (below \<open>2\<^sup>5\<^sup>3\<close>, where \<^verbatim>\<open>toString\<close> writes it digit
  for digit), when the separator occurs in the printed text only where sections were
  joined, that is no section followed by the first six characters of the separator
  contains the separator, and when cheerio finds in the printed block the list item
  that was written, with the digits of the id as its value.
\<close>

theorem parse_print_roundtrip:
  assumes "canonicalId (metadata b) = Some n" and "1 \<le> n" and "n < 2 ^ 53"
    and "\<forall>s\<in>set (sections b). \<not> sublist SEPARATOR (s @ butlast SEPARATOR)"
    and "select (DO_NOT_EDIT @ the (printMetadata (Some (metadata b))))
           = [[(''canonicalId'', number_toString n)]]"
  shows "parseIssueBody select (printIssueBody b) = b"
  using assms by (rule roundtrip_with_id)

theorem parse_print_roundtrip_witness:
  "parseIssueBody cheerio_select
     (printIssueBody
        \<lparr>sections = [''Steps to reproduce'', ''---'', ''- one'' @ [CHR 0x0D, CHR 0x0A] @ ''- two''],
         metadata = \<lparr>canonicalId = Some 42\<rparr>\<rparr>)
   = \<lparr>sections = [''Steps to reproduce'', ''---'', ''- one'' @ [CHR 0x0D, CHR 0x0A] @ ''- two''],
      metadata = \<lparr>canonicalId = Some 42\<rparr>\<rparr>"
proof -
  let ?b = "\<lparr>sections = [''Steps to reproduce'', ''---'',
                           ''- one'' @ [CHR 0x0D, CHR 0x0A] @ ''- two''],
             metadata = \<lparr>canonicalId = Some 42\<rparr>\<rparr>"
  have 1: "canonicalId (metadata ?b) = Some 42" by simp
  have 2: "(1::int) \<le> 42" by simp
  have 3: "(42::int) < 2 ^ 53" by simp
  have 4: "\<forall>s\<in>set (sections ?b). \<not> sublist SEPARATOR (s @ butlast SEPARATOR)"
    by code_simp
  have 5: "cheerio_select (DO_NOT_EDIT @ the (printMetadata (Some (metadata ?b))))
           = [[(''canonicalId'', number_toString 42)]]"
    by code_simp
  show ?thesis
    by (rule parse_print_roundtrip [where b = ?b and n = 42 and select = cheerio_select,
          OF 1 2 3 4 5])
qed

section \<open>Properties of the cache synchroniser\<close>















lemma find_after_insert:
  assumes "collection_find ow re w = []" "\<forall>d\<in>set issues. owner d = ow \<and> repo d = re"
  shows "collection_find ow re (w\<lparr>collection := collection w @ issues, createIndexes_calls := a,
            listForRepo_calls := b\<rparr>) = issues"
  using assms by (simp add: collection_find_def)




end
